theory Spec2Isabelle
  imports Main
begin

section \<open>Data model of \<open>process-instance.js\<close>\<close>

text \<open>
  JavaScript values, as far as the engine looks at them: the error argument and the
  variables of an instance are arbitrary values that the code tests for truthiness
  (\<open>if (err)\<close>, \<open>if (variables)\<close>) and otherwise only stores. Numbers are integers here
  (no \<open>NaN\<close>). \<open>_.clone(v, true)\<close> is the identity on such values.
\<close>

datatype jsval =
    JUndefined
  | JNull
  | JBool bool
  | JNum int
  | JStr string
  | JObj "(string \<times> jsval) list"

fun truthy :: "jsval \<Rightarrow> bool" where
  "truthy JUndefined = False"
| "truthy JNull = False"
| "truthy (JBool b) = b"
| "truthy (JNum n) = (n \<noteq> 0)"
| "truthy (JStr s) = (s \<noteq> [])"
| "truthy (JObj kvs) = True"

text \<open>\<open>ProcessInstance.STATUS\<close>.\<close>

datatype status = NEW | RUNNING | WAITING | COMPLETED | FAILED

text \<open>
  A flow refers to its two tasks; the objects of the source are referred to by their
  index in \<open>def.tasks\<close>. \<open>condition\<close> is the guard a decision node evaluates on the
  variables.
\<close>

record flow =
  from_flow :: nat
  to_flow :: nat
  condition :: "jsval \<Rightarrow> bool"

record task =
  task_id :: nat
  name :: string
  type :: string
  incomingFlows :: "flow list"
  outgoingFlows :: "flow list"

text \<open>
  Modelled from the spec: the node types registered in \<open>engine.taskTypes\<close> (the
  constructors \<open>taskType[1]\<close> that \<open>createNode\<close> calls) are not in this file of the
  repository. \<open>Base\<close> is \<open>Node\<close> itself; a service task suspends on entry; a decision
  follows only the flows whose condition holds.
\<close>

datatype node_kind = Base | ServiceTask | Decision

record node =
  task :: task
  incomingFlowCompletedNumber :: nat
  kind :: node_kind
  pendingAsync :: bool

text \<open>
  The process definition an instance runs: \<open>def._id\<close>, \<open>def.tasks\<close>, \<open>def.variables\<close>
  and, through \<open>def.engine\<close>, the registry \<open>engine.taskTypes\<close>.
\<close>

record process_definition =
  def_id :: "nat option"
  tasks :: "task list"
  def_variables :: jsval
  taskTypes :: "string \<Rightarrow> node_kind option"

text \<open>
  \<open>nodePool\<close> is a JavaScript object keyed by task id: an association list kept in
  ascending key order, the order in which \<open>_.forOwn\<close> visits integer keys.
\<close>

type_synonym 'v pool = "(nat \<times> 'v) list"

definition pool_get :: "'v pool \<Rightarrow> nat \<Rightarrow> 'v option" where
  "pool_get p k = map_of p k"

fun pool_put :: "nat \<Rightarrow> 'v \<Rightarrow> 'v pool \<Rightarrow> 'v pool" where
  "pool_put k v [] = [(k, v)]"
| "pool_put k v ((k', v') # p) =
     (if k < k' then (k, v) # (k', v') # p
      else if k = k' then (k, v) # p
      else (k', v') # pool_put k v p)"

definition pool_delete :: "nat \<Rightarrow> 'v pool \<Rightarrow> 'v pool" where
  "pool_delete k p = filter (\<lambda>kv. fst kv \<noteq> k) p"

record process_instance =
  id_inst :: "nat option"
  persistenceId :: "nat option"
  def :: process_definition
  nodePool :: "node pool"
  status :: status
  variables :: jsval
  error :: jsval

text \<open>The persisted documents.\<close>

record node_entity =
  e_processInstance :: "nat option"
  e_incomingFlowCompletedNumber :: nat
  e_task :: nat

record entity =
  e_persistenceId :: "nat option"
  e_id :: "nat option"
  e_def :: "nat option"
  e_status :: status
  e_nodePool :: "node_entity list"
  e_variables :: jsval
  e_error :: jsval

datatype exn = TypeError | StackOverflow

section \<open>Nodes\<close>

text \<open>\<open>new ProcessInstance(def)\<close>.\<close>

definition ProcessInstance :: "process_definition \<Rightarrow> process_instance" where
  "ProcessInstance d =
     \<lparr>id_inst = None, persistenceId = None, def = d, nodePool = [],
      status = NEW, variables = JObj [], error = JNull\<rparr>"

text \<open>\<open>new Node(task, processInstance)\<close> and \<open>ProcessInstance.prototype.createNode\<close>.\<close>

definition Node :: "task \<Rightarrow> node" where
  "Node t = \<lparr>task = t, incomingFlowCompletedNumber = 0, kind = Base, pendingAsync = False\<rparr>"

definition createNode :: "'a process_instance_scheme \<Rightarrow> task \<Rightarrow> node" where
  "createNode i t =
     (case taskTypes (def i) (type t) of
        None \<Rightarrow> Node t
      | Some k \<Rightarrow> (Node t)\<lparr>kind := k\<rparr>)"

text \<open>\<open>Node.prototype.canExecuteNode\<close>.\<close>

definition canExecuteNode :: "node \<Rightarrow> bool" where
  "canExecuteNode n = (incomingFlowCompletedNumber n = length (incomingFlows (task n)))"

text \<open>
  \<open>Node.prototype.canFollowOutgoingFlow\<close> returns true; the decision node's override
  evaluates the flow's condition on the instance's variables.
\<close>

definition canFollowOutgoingFlow :: "node \<Rightarrow> flow \<Rightarrow> 'a process_instance_scheme \<Rightarrow> bool" where
  "canFollowOutgoingFlow n f i =
     (case kind n of Decision \<Rightarrow> condition f (variables i) | _ \<Rightarrow> True)"

section \<open>Serialization\<close>

text \<open>\<open>Node.prototype.serialize\<close> and \<open>ProcessInstance.prototype.serialize\<close>.\<close>

definition serialize_node :: "'a process_instance_scheme \<Rightarrow> node \<Rightarrow> node_entity" where
  "serialize_node i n =
     \<lparr>e_processInstance = id_inst i,
      e_incomingFlowCompletedNumber = incomingFlowCompletedNumber n,
      e_task = task_id (task n)\<rparr>"

definition serialize :: "'a process_instance_scheme \<Rightarrow> entity" where
  "serialize i =
     \<lparr>e_persistenceId = persistenceId i,
      e_id = id_inst i,
      e_def = def_id (def i),
      e_status = status i,
      e_nodePool = map (\<lambda>kv. serialize_node i (snd kv)) (nodePool i),
      e_variables = variables i,
      e_error = error i\<rparr>"

text \<open>
  \<open>instance.def.tasks[entity.task]\<close>: a missing index gives \<open>undefined\<close>, and
  \<open>createNode(undefined)\<close> throws on \<open>task.type\<close>.
\<close>

definition lookupTask :: "process_definition \<Rightarrow> nat \<Rightarrow> task option" where
  "lookupTask d k = (if k < length (tasks d) then Some (tasks d ! k) else None)"

text \<open>
  The factory \<open>Node.deserialize(entity, instance)\<close>. It builds the node with
  \<open>createNode\<close>, sets its instance and task, and calls the hook \<open>node.deserialize()\<close>,
  which does nothing in \<open>Node\<close>.
\<close>

definition deserialize_node :: "node_entity \<Rightarrow> process_instance \<Rightarrow> exn + node" where
  "deserialize_node e i =
     (case lookupTask (def i) (e_task e) of
        None \<Rightarrow> Inl TypeError
      | Some t \<Rightarrow> Inr ((createNode i t)\<lparr>task := t\<rparr>))"

text \<open>The \<open>forEach\<close> of \<open>ProcessInstance.deserialize\<close> over \<open>entity.nodePool\<close>.\<close>

fun deserialize_nodes :: "node_entity list \<Rightarrow> process_instance \<Rightarrow> exn + process_instance" where
  "deserialize_nodes [] i = Inr i"
| "deserialize_nodes (e # es) i =
     (case deserialize_node e i of
        Inl x \<Rightarrow> Inl x
      | Inr n \<Rightarrow>
          deserialize_nodes es
            (i\<lparr>nodePool := pool_put (task_id (task n)) n (nodePool i)\<rparr>))"

text \<open>
  \<open>ProcessInstance.deserialize(engine, entity)\<close>, from the point where
  \<open>engine.loadProcessDefinition(entity.def)\<close> has delivered the definition \<open>d\<close>.
\<close>

definition deserialize :: "process_definition \<Rightarrow> entity \<Rightarrow> exn + process_instance" where
  "deserialize d e =
     deserialize_nodes (e_nodePool e)
       ((ProcessInstance d)
          \<lparr>id_inst := e_id e, status := e_status e,
           variables := e_variables e, error := e_error e\<rparr>)"

section \<open>The engine's live pool\<close>

text \<open>\<open>engineAPI.clearPool\<close>, on \<open>this.processPool\<close> (process id to instance).\<close>

definition clearPool :: "(nat \<rightharpoonup> 'a process_instance_scheme) \<Rightarrow> (nat \<rightharpoonup> 'a process_instance_scheme)" where
  "clearPool processPool =
     (\<lambda>key. case processPool key of
        None \<Rightarrow> None
      | Some i \<Rightarrow>
          if status i = WAITING \<or> status i = COMPLETED then None else Some i)"

section \<open>Events, persistence and the event loop\<close>

text \<open>
  What an instance emits. \<open>before\<close> and \<open>after\<close> carry the task, identified here by
  its id.
\<close>

datatype event = Before nat | After nat | End

text \<open>
  A promise returned by \<open>save\<close> that has not settled yet: the document serialized when
  \<open>save\<close> was called, and what the caller chained with \<open>done\<close>: nothing, the emission
  of \<open>end\<close> (in \<open>complete\<close>), or the execution of the start node (in \<open>_start\<close>).
\<close>

datatype cont = NoCont | EmitEnd | StartNode

record pending_op =
  op_doc :: entity
  op_cont :: cont

text \<open>
  An instance together with what is observable of it from outside: the events emitted so
  far, the writes under way, and the collection of the store.
\<close>

record world = process_instance +
  emitted :: "event list"
  pending :: "pending_op list"
  collection :: "entity list"
  nextStoreId :: nat

type_synonym result = "(exn \<times> world) + world"

definition emit :: "event \<Rightarrow> world \<Rightarrow> world" where
  "emit ev w = w\<lparr>emitted := emitted w @ [ev]\<rparr>"

text \<open>
  \<open>ProcessInstance.prototype.save\<close>: the entity is serialized at once; the insert or
  update (by \<open>entity._id\<close>) is under way until the event loop settles it.
\<close>

definition save :: "cont \<Rightarrow> world \<Rightarrow> world" where
  "save c w = w\<lparr>pending := pending w @ [\<lparr>op_doc = serialize w, op_cont = c\<rparr>]\<rparr>"

text \<open>\<open>ProcessInstance.prototype.changeStatus\<close>; an omitted \<open>err\<close> is \<open>undefined\<close>.\<close>

definition changeStatus :: "status \<Rightarrow> jsval \<Rightarrow> cont \<Rightarrow> world \<Rightarrow> world" where
  "changeStatus st err c w = save c (w\<lparr>status := st, error := err\<rparr>)"

text \<open>
  Modelled from the spec: \<open>executeInternal\<close> of the service-task node, which is not in
  this file of the repository. It records a pending-async marker on the node, moves the
  instance to WAITING and persists it; \<open>complete\<close> is left for an external caller.
\<close>

definition markPending :: "node \<Rightarrow> world \<Rightarrow> world" where
  "markPending n w =
     (case pool_get (nodePool w) (task_id (task n)) of
        None \<Rightarrow> w
      | Some _ \<Rightarrow>
          w\<lparr>nodePool := pool_put (task_id (task n)) (n\<lparr>pendingAsync := True\<rparr>) (nodePool w)\<rparr>)"

definition executeInternal_service :: "node \<Rightarrow> world \<Rightarrow> world" where
  "executeInternal_service n w = changeStatus WAITING JUndefined NoCont (markPending n w)"

section \<open>Token propagation\<close>

text \<open>
  \<open>Node.prototype.execute\<close>, \<open>Node.prototype.complete\<close> and the \<open>forEach\<close> over the
  outgoing flows inside \<open>complete\<close>. The three call each other; the first argument
  bounds the depth of nested \<open>execute\<close> calls (the call stack), and an exception
  leaves the instance as it was when it was thrown.
\<close>

fun execute :: "nat \<Rightarrow> node \<Rightarrow> world \<Rightarrow> result"
  and complete :: "nat \<Rightarrow> node \<Rightarrow> jsval \<Rightarrow> jsval \<Rightarrow> world \<Rightarrow> result"
  and followFlows :: "nat \<Rightarrow> node \<Rightarrow> flow list \<Rightarrow> world \<Rightarrow> result"
where
  "execute 0 n w = Inl (StackOverflow, w)"
| "execute (Suc k) n w =
     (let w1 = emit (Before (task_id (task n))) w
      in case kind n of
           ServiceTask \<Rightarrow> Inr (executeInternal_service n w1)
         | _ \<Rightarrow> complete k n JUndefined JUndefined w1)"
| "complete k n err vars w =
     (if truthy err then Inr (changeStatus FAILED err EmitEnd w)
      else
        let w1 = (if truthy vars then w\<lparr>variables := vars\<rparr> else w);
            w2 = emit (After (task_id (task n))) w1;
            w3 = w2\<lparr>nodePool := pool_delete (task_id (task n)) (nodePool w2)\<rparr>
        in case followFlows k n (outgoingFlows (task n)) w3 of
             Inl x \<Rightarrow> Inl x
           | Inr w4 \<Rightarrow>
               Inr (if type (task n) = ''end-task''
                    then changeStatus COMPLETED JUndefined EmitEnd w4
                    else w4))"
| "followFlows k n [] w = Inr w"
| "followFlows k n (f # fs) w =
     (if \<not> canFollowOutgoingFlow n f w then followFlows k n fs w
      else
        case lookupTask (def w) (to_flow f) of
          None \<Rightarrow> Inl (TypeError, w)
        | Some t \<Rightarrow>
            let node0 = (case pool_get (nodePool w) (task_id t) of
                           Some nd \<Rightarrow> nd
                         | None \<Rightarrow> createNode w t);
                node1 = node0\<lparr>incomingFlowCompletedNumber :=
                                incomingFlowCompletedNumber node0 + 1\<rparr>;
                w1 = w\<lparr>nodePool := pool_put (task_id t) node1 (nodePool w)\<rparr>
            in if canExecuteNode node1
               then (case execute k node1 w1 of
                       Inl x \<Rightarrow> Inl x
                     | Inr w2 \<Rightarrow> followFlows k n fs w2)
               else followFlows k n fs
                      (if status w1 = WAITING then save NoCont w1 else w1))"

text \<open>
  Modelled from the spec: the persistence collection, an external collaborator.
  \<open>insert\<close> stores the document under a fresh id, which \<open>save\<close> then assigns to the
  instance (\<open>this._id = entity._id\<close>); \<open>update\<close> replaces the document with that id.
  Writes settle in the order they were issued and do not fail.
\<close>

definition settle_store :: "entity \<Rightarrow> world \<Rightarrow> world" where
  "settle_store doc w =
     (case e_persistenceId doc of
        Some pid \<Rightarrow>
          w\<lparr>collection :=
               map (\<lambda>d. if e_persistenceId d = Some pid then doc else d) (collection w)\<rparr>
      | None \<Rightarrow>
          w\<lparr>persistenceId := Some (nextStoreId w),
            collection := collection w @ [doc\<lparr>e_persistenceId := Some (nextStoreId w)\<rparr>],
            nextStoreId := Suc (nextStoreId w)\<rparr>)"

text \<open>
  The callbacks given to \<open>done\<close>. The one of \<open>_start\<close> runs \<open>new Node(this.def.tasks[0],
  this).execute()\<close>; with no task 0 that throws (after two events for the undefined
  task, which are not recorded here).
\<close>

fun run_cont :: "nat \<Rightarrow> cont \<Rightarrow> world \<Rightarrow> result" where
  "run_cont k NoCont w = Inr w"
| "run_cont k EmitEnd w = Inr (emit End w)"
| "run_cont k StartNode w =
     (case lookupTask (def w) 0 of
        None \<Rightarrow> Inl (TypeError, w)
      | Some t \<Rightarrow> execute k (Node t) w)"

text \<open>One turn of the event loop settles the oldest write and runs its callback.\<close>

definition turn :: "nat \<Rightarrow> world \<Rightarrow> result" where
  "turn k w =
     (case pending w of
        [] \<Rightarrow> Inr w
      | op # ops \<Rightarrow> run_cont k (op_cont op) (settle_store (op_doc op) (w\<lparr>pending := ops\<rparr>)))"

fun turns :: "nat \<Rightarrow> nat \<Rightarrow> world \<Rightarrow> result" where
  "turns 0 k w = Inr w"
| "turns (Suc m) k w =
     (case turn k w of
        Inl x \<Rightarrow> Inl x
      | Inr w' \<Rightarrow> turns m k w')"

text \<open>\<open>ProcessInstance.prototype._start\<close>.\<close>

definition start_internal :: "jsval \<Rightarrow> world \<Rightarrow> world" where
  "start_internal vars w =
     changeStatus RUNNING JUndefined StartNode
       (w\<lparr>variables := (if truthy vars then vars else def_variables (def w))\<rparr>)"

text \<open>
  \<open>engineAPI.completeTask\<close> for an instance that is in the live pool:
  \<open>nodePool[taskId].complete(null, variables)\<close>, which throws when the task id is not
  in the node pool.
\<close>

definition completeTask :: "nat \<Rightarrow> nat \<Rightarrow> jsval \<Rightarrow> world \<Rightarrow> result" where
  "completeTask k taskId vars w =
     (case pool_get (nodePool w) taskId of
        None \<Rightarrow> Inl (TypeError, w)
      | Some n \<Rightarrow> complete k n JNull vars w)"

text \<open>
  Modelled from the spec: the continuation that the service-task node retains, whose
  class is not in this file of the repository. It is the \<open>complete\<close> that \<open>execute\<close> hands
  to \<open>executeInternal\<close>, made one-shot: the first call wins, clears the pending-async
  marker and runs \<open>complete\<close>; every later call is a no-op. The continuation holds its
  node, so it is invoked with the node and gives the node back.
\<close>

definition clearPending :: "node \<Rightarrow> world \<Rightarrow> world" where
  "clearPending n w =
     (case pool_get (nodePool w) (task_id (task n)) of
        None \<Rightarrow> w
      | Some nd \<Rightarrow>
          w\<lparr>nodePool := pool_put (task_id (task n)) (nd\<lparr>pendingAsync := False\<rparr>) (nodePool w)\<rparr>)"

definition invokeStored :: "nat \<Rightarrow> node \<Rightarrow> jsval \<Rightarrow> jsval \<Rightarrow> world \<Rightarrow> node \<times> result" where
  "invokeStored k n err vars w =
     (if pendingAsync n
      then (n\<lparr>pendingAsync := False\<rparr>,
            complete k (n\<lparr>pendingAsync := False\<rparr>) err vars (clearPending n w))
      else (n, Inr w))"

text \<open>
  \<open>engineAPI.createProcessInstance\<close>, seen from the new instance: a fresh instance with
  the id the engine gave it, nothing emitted and nothing written yet.
\<close>

definition createProcessInstance :: "process_definition \<Rightarrow> nat \<Rightarrow> world" where
  "createProcessInstance d i =
     \<lparr>id_inst = Some i, persistenceId = None, def = d, nodePool = [],
      status = NEW, variables = JObj [], error = JNull,
      emitted = [], pending = [], collection = [], nextStoreId = 0\<rparr>"

text \<open>The world a result leaves behind, whether it returned or threw.\<close>

definition world_of :: "result \<Rightarrow> world" where
  "world_of r = (case r of Inl x \<Rightarrow> snd x | Inr w \<Rightarrow> w)"

section \<open>Event order\<close>

text \<open>
  In a list of emitted events, every \<open>after\<close> of a task comes strictly later than a
  \<open>before\<close> of the same task.
\<close>

definition before_precedes_after :: "event list \<Rightarrow> bool" where
  "before_precedes_after evs =
     (\<forall>j < length evs. \<forall>t. evs ! j = After t \<longrightarrow> (\<exists>i < j. evs ! i = Before t))"

text \<open>
  The states of one instance execution: the instance is started, the event loop takes
  turns, and from outside a pooled node is completed (\<open>completeTask\<close>, or a handler calling
  the continuation it was given) after the \<open>before\<close> of its task was emitted, that is,
  after the node was executed.
\<close>

inductive instance_run :: "process_definition \<Rightarrow> nat \<Rightarrow> world \<Rightarrow> bool"
  for d :: process_definition and i :: nat
where
  started: "instance_run d i (start_internal vars (createProcessInstance d i))"
| turned: "instance_run d i w \<Longrightarrow> instance_run d i (world_of (turn k w))"
| completed:
    "instance_run d i w \<Longrightarrow> pool_get (nodePool w) taskId = Some n \<Longrightarrow>
     Before (task_id (task n)) \<in> set (emitted w) \<Longrightarrow>
     instance_run d i (world_of (complete k n err vars w))"

section \<open>Example processes\<close>

text \<open>
  Modelled from the spec: the registry with the required built-ins. \<open>start-task\<close> and
  \<open>end-task\<close> use the base node, as every type that is not registered does.
\<close>

definition builtinTypes :: "string \<Rightarrow> node_kind option" where
  "builtinTypes s =
     (if s = ''service-task'' then Some ServiceTask
      else if s = ''decision'' then Some Decision
      else None)"

definition unguarded :: "nat \<Rightarrow> nat \<Rightarrow> flow" where
  "unguarded a b = \<lparr>from_flow = a, to_flow = b, condition = (\<lambda>v. True)\<rparr>"

definition mkTask :: "nat \<Rightarrow> string \<Rightarrow> string \<Rightarrow> flow list \<Rightarrow> flow list \<Rightarrow> task" where
  "mkTask i nm ty ins outs =
     \<lparr>task_id = i, name = nm, type = ty, incomingFlows = ins, outgoingFlows = outs\<rparr>"

text \<open>start, then a service task, then end.\<close>

definition linear_def :: process_definition where
  "linear_def =
     \<lparr>def_id = Some 7,
      tasks = [mkTask 0 ''start'' ''start-task'' [] [unguarded 0 1],
               mkTask 1 ''svc'' ''service-task'' [unguarded 0 1] [unguarded 1 2],
               mkTask 2 ''end'' ''end-task'' [unguarded 1 2] []],
      def_variables = JObj [],
      taskTypes = builtinTypes\<rparr>"

text \<open>start forks to a service task and, in parallel, to end.\<close>

definition parallel_def :: process_definition where
  "parallel_def =
     \<lparr>def_id = Some 7,
      tasks = [mkTask 0 ''start'' ''start-task'' [] [unguarded 0 1, unguarded 0 2],
               mkTask 1 ''svc'' ''service-task'' [unguarded 0 1] [],
               mkTask 2 ''end'' ''end-task'' [unguarded 0 2] []],
      def_variables = JObj [],
      taskTypes = builtinTypes\<rparr>"

text \<open>
  The linear process after \<open>_start\<close> and two turns of the event loop: the instance
  waits in the service task.
\<close>

definition linear_waiting :: world where
  "linear_waiting =
     world_of (turns 2 5 (start_internal JUndefined (createProcessInstance linear_def 1)))"

definition parallel_run :: world where
  "parallel_run =
     world_of (turns 4 5 (start_internal JUndefined (createProcessInstance parallel_def 1)))"

text \<open>
  A decision between two branches that meet again in the end task: the flow to A is
  guarded by \<open>x > 0\<close>, the flow to B by its negation.
\<close>

definition x_positive :: "jsval \<Rightarrow> bool" where
  "x_positive v =
     (case v of
        JObj kvs \<Rightarrow> (case map_of kvs ''x'' of Some (JNum x) \<Rightarrow> 0 < x | _ \<Rightarrow> False)
      | _ \<Rightarrow> False)"

definition decision_def :: process_definition where
  "decision_def =
     \<lparr>def_id = Some 7,
      tasks = [mkTask 0 ''start'' ''start-task'' [] [unguarded 0 1],
               mkTask 1 ''decide'' ''decision'' [unguarded 0 1]
                 [(unguarded 1 2)\<lparr>condition := x_positive\<rparr>,
                  (unguarded 1 3)\<lparr>condition := (\<lambda>v. \<not> x_positive v)\<rparr>],
               mkTask 2 ''A'' ''task'' [unguarded 1 2] [unguarded 2 4],
               mkTask 3 ''B'' ''task'' [unguarded 1 3] [unguarded 3 4],
               mkTask 4 ''end'' ''end-task'' [unguarded 2 4, unguarded 3 4] []],
      def_variables = JObj [(''x'', JNum 5)],
      taskTypes = builtinTypes\<rparr>"

definition decision_run :: world where
  "decision_run =
     world_of (turns 4 5 (start_internal JUndefined (createProcessInstance decision_def 1)))"

text \<open>
  The decision process when the decision node has just run (variables \<open>x = 5\<close>), and
  its decision node.
\<close>

definition decision_start :: world where
  "decision_start =
     (createProcessInstance decision_def 1)
       \<lparr>status := RUNNING, variables := JObj [(''x'', JNum 5)]\<rparr>"

definition decide_node :: node where
  "decide_node = createNode decision_start (tasks decision_def ! 1)"

text \<open>
  The waiting service node of the linear process, the node of its end task, the instance
  after the service node completed once, and after the event loop settled that.
\<close>

definition svc_node :: node where
  "svc_node =
     (createNode linear_waiting (tasks linear_def ! 1))
       \<lparr>incomingFlowCompletedNumber := 1, pendingAsync := True\<rparr>"

definition end_node :: node where
  "end_node = (createNode linear_waiting (tasks linear_def ! 2))\<lparr>incomingFlowCompletedNumber := 1\<rparr>"

definition linear_once :: world where
  "linear_once = world_of (complete 5 svc_node JNull (JObj [(''x'', JNum 2)]) linear_waiting)"

definition linear_done :: world where
  "linear_done = world_of (turns 1 5 linear_once)"

text \<open>
  start forks to a service task and to a join; the service task leads to the join, the
  join to end. After the start the service node waits and the join has seen one of its
  two incoming flows.
\<close>

definition join_def :: process_definition where
  "join_def =
     \<lparr>def_id = Some 7,
      tasks = [mkTask 0 ''start'' ''start-task'' [] [unguarded 0 1, unguarded 0 2],
               mkTask 1 ''svc'' ''service-task'' [unguarded 0 1] [unguarded 1 2],
               mkTask 2 ''join'' ''task'' [unguarded 0 2, unguarded 1 2] [unguarded 2 3],
               mkTask 3 ''end'' ''end-task'' [unguarded 2 3] []],
      def_variables = JObj [],
      taskTypes = builtinTypes\<rparr>"

definition join_waiting :: world where
  "join_waiting =
     world_of (turns 3 5 (start_internal JUndefined (createProcessInstance join_def 1)))"

text \<open>The linear process after the stored continuation of its service node was invoked.\<close>

definition linear_resumed :: world where
  "linear_resumed =
     world_of (snd (invokeStored 5 svc_node JNull (JObj [(''x'', JNum 2)]) linear_waiting))"

text \<open>A live pool of the engine with one instance in each of four states.\<close>

definition example_pool :: "nat \<rightharpoonup> world" where
  "example_pool =
     [1 \<mapsto> linear_waiting, 2 \<mapsto> decision_run, 3 \<mapsto> parallel_run,
      4 \<mapsto> changeStatus FAILED (JStr ''boom'') EmitEnd decision_run]"

section \<open>Basic facts\<close>

lemmas model_defs =
  builtinTypes_def unguarded_def mkTask_def
  start_internal_def createProcessInstance_def changeStatus_def save_def serialize_def
  serialize_node_def turn_def settle_store_def lookupTask_def Node_def emit_def
  pool_delete_def pool_get_def createNode_def canExecuteNode_def canFollowOutgoingFlow_def
  executeInternal_service_def markPending_def Let_def

lemma pool_get_put: "pool_get (pool_put k v p) k' = (if k' = k then Some v else pool_get p k')"
  by (induction p) (auto simp: pool_get_def)

lemma pool_get_delete: "pool_get (pool_delete k p) k' = (if k' = k then None else pool_get p k')"
  by (induction p) (auto simp: pool_get_def pool_delete_def)

lemma createNode_counter: "incomingFlowCompletedNumber (createNode i t) = 0"
  by (simp add: createNode_def Node_def split: option.splits)

lemma createNode_task: "task (createNode i t) = t"
  by (simp add: createNode_def Node_def split: option.splits)

lemma world_of_simps [simp]: "world_of (Inr w) = w" "world_of (Inl (x, w)) = w"
  by (simp_all add: world_of_def)

lemma linear_waiting_fields:
  "status linear_waiting = WAITING"
  "emitted linear_waiting = [Before 0, After 0, Before 1]"
  "map fst (nodePool linear_waiting) = [1]"
  "map (\<lambda>kv. incomingFlowCompletedNumber (snd kv)) (nodePool linear_waiting) = [1]"
  "pending linear_waiting = []"
  "map e_status (collection linear_waiting) = [WAITING]"
  "def linear_waiting = linear_def"
  by (simp_all add: linear_waiting_def linear_def_def model_defs eval_nat_numeral)

lemma parallel_run_fields:
  "status parallel_run = COMPLETED"
  "emitted parallel_run = [Before 0, After 0, Before 1, Before 2, After 2, End]"
  "map fst (nodePool parallel_run) = [1]"
  by (simp_all add: parallel_run_def parallel_def_def model_defs eval_nat_numeral)


lemma decision_run_fields:
  "status decision_run = RUNNING"
  "emitted decision_run = [Before 0, After 0, Before 1, After 1, Before 2, After 2]"
  "map fst (nodePool decision_run) = [4]"
  "map (\<lambda>kv. incomingFlowCompletedNumber (snd kv)) (nodePool decision_run) = [1]"
  by (simp_all add: decision_run_def decision_def_def x_positive_def model_defs eval_nat_numeral)

lemmas run_defs = decision_start_def decide_node_def svc_node_def end_node_def
  linear_waiting_def linear_def_def decision_def_def x_positive_def model_defs eval_nat_numeral

lemmas rev_defs = join_def_def join_waiting_def clearPending_def invokeStored_def
  linear_resumed_def pool_put.simps

lemma join_waiting_fields:
  "status join_waiting = WAITING"
  "emitted join_waiting = [Before 0, After 0, Before 1]"
  "map (\<lambda>kv. (fst kv, incomingFlowCompletedNumber (snd kv))) (nodePool join_waiting) = [(1, 1), (2, 1)]"
  "pending join_waiting = []"
  by (simp_all add: rev_defs run_defs)

lemma svc_node_in_pool: "pool_get (nodePool linear_waiting) 1 = Some svc_node"
  by (simp add: svc_node_def linear_waiting_def linear_def_def model_defs eval_nat_numeral)

lemma linear_once_returns:
  "complete 5 svc_node JNull (JObj [(''x'', JNum 2)]) linear_waiting = Inr linear_once"
  by (simp add: linear_once_def svc_node_def linear_waiting_def linear_def_def model_defs
        eval_nat_numeral)

lemma linear_done_fields:
  "status linear_done = COMPLETED"
  "emitted linear_done = [Before 0, After 0, Before 1, After 1, Before 2, After 2, End]"
  "nodePool linear_done = []"
  "variables linear_done = JObj [(''x'', JNum 2)]"
  "map e_status (collection linear_done) = [COMPLETED]"
  "pending linear_done = []"
  by (simp_all add: linear_done_def linear_once_def svc_node_def linear_waiting_def linear_def_def
        model_defs eval_nat_numeral)

section \<open>The join condition\<close>

text \<open>
  C3. \<open>canExecuteNode\<close> holds of a node if and only if its counter of completed incoming
  flows equals the number of incoming flows of its task.
\<close>

theorem canExecuteNode_and_join:
  "canExecuteNode n = (incomingFlowCompletedNumber n = length (incomingFlows (task n)))"
  by (simp add: canExecuteNode_def)

section \<open>Status changes\<close>

text \<open>
  C10. \<open>changeStatus\<close> always assigns the error: called without an error it leaves
  \<open>undefined\<close> there, whatever was recorded before. Besides the status and the error it
  changes no field of the instance; it issues one write of the instance as it then is.
\<close>

theorem changeStatus_frame:
  "error (changeStatus st JUndefined c w) = JUndefined
   \<and> error (changeStatus st err c w) = err
   \<and> status (changeStatus st err c w) = st
   \<and> id_inst (changeStatus st err c w) = id_inst w
   \<and> persistenceId (changeStatus st err c w) = persistenceId w
   \<and> def (changeStatus st err c w) = def w
   \<and> nodePool (changeStatus st err c w) = nodePool w
   \<and> variables (changeStatus st err c w) = variables w
   \<and> emitted (changeStatus st err c w) = emitted w
   \<and> collection (changeStatus st err c w) = collection w
   \<and> nextStoreId (changeStatus st err c w) = nextStoreId w
   \<and> pending (changeStatus st err c w) =
       pending w @ [\<lparr>op_doc = (serialize w)\<lparr>e_status := st, e_error := err\<rparr>, op_cont = c\<rparr>]"
  by (simp add: changeStatus_def save_def serialize_def serialize_node_def)

section \<open>Eviction from the live pool\<close>

text \<open>
  C9. \<open>clearPool\<close> removes from the live pool exactly the instances whose status is
  WAITING or COMPLETED; an instance that is RUNNING or FAILED stays, and what stays is
  unchanged.
\<close>

theorem clearPool_evicts:
  "dom (clearPool p) = dom p - {k. \<exists>i. p k = Some i \<and> (status i = WAITING \<or> status i = COMPLETED)}
   \<and> (\<forall>k i. p k = Some i \<longrightarrow> status i = RUNNING \<or> status i = FAILED \<longrightarrow> clearPool p k = Some i)
   \<and> (\<forall>k i. clearPool p k = Some i \<longrightarrow> p k = Some i)"
  by (auto simp: clearPool_def split: option.splits if_splits)

theorem clearPool_evicts_witness:
  "clearPool example_pool 1 = None
   \<and> clearPool example_pool 2 = Some decision_run
   \<and> clearPool example_pool 3 = None
   \<and> clearPool example_pool 4 = Some (changeStatus FAILED (JStr ''boom'') EmitEnd decision_run)"
proof -
  have s: "status linear_waiting = WAITING" "status decision_run = RUNNING"
    "status parallel_run = COMPLETED"
    "status (changeStatus FAILED (JStr ''boom'') EmitEnd decision_run) = FAILED"
    by (simp_all add: linear_waiting_fields decision_run_fields parallel_run_fields
          changeStatus_def save_def)
  have p: "example_pool 1 = Some linear_waiting" "example_pool 2 = Some decision_run"
    "example_pool 3 = Some parallel_run"
    "example_pool 4 = Some (changeStatus FAILED (JStr ''boom'') EmitEnd decision_run)"
    by (simp_all add: example_pool_def)
  from clearPool_evicts[of example_pool] have
    d: "dom (clearPool example_pool) = dom example_pool -
          {k. \<exists>i. example_pool k = Some i \<and> (status i = WAITING \<or> status i = COMPLETED)}"
    and keep: "\<And>k i. example_pool k = Some i \<Longrightarrow> status i = RUNNING \<or> status i = FAILED
                 \<Longrightarrow> clearPool example_pool k = Some i"
    by blast+
  have k2: "clearPool example_pool 2 = Some decision_run"
    using keep[OF p(2)] s(2) by blast
  have k4: "clearPool example_pool 4 = Some (changeStatus FAILED (JStr ''boom'') EmitEnd decision_run)"
    using keep[OF p(4)] s(4) by blast
  have "1 \<in> {k. \<exists>i. example_pool k = Some i \<and> (status i = WAITING \<or> status i = COMPLETED)}"
    using p(1) s(1) by blast
  then have "1 \<notin> dom (clearPool example_pool)" unfolding d by blast
  then have k1: "clearPool example_pool 1 = None" by (simp only: domIff not_not)
  have "3 \<in> {k. \<exists>i. example_pool k = Some i \<and> (status i = WAITING \<or> status i = COMPLETED)}"
    using p(3) s(3) by blast
  then have "3 \<notin> dom (clearPool example_pool)" unfolding d by blast
  then have k3: "clearPool example_pool 3 = None" by (simp only: domIff not_not)
  from k1 k2 k3 k4 show ?thesis by blast
qed

section \<open>Round trip through the persisted document\<close>

text \<open>
  Whatever the entity holds, every node that \<open>deserialize\<close> puts into the pool has
  counter 0; the status and the variables are those of the entity.
\<close>

lemma set_pool_put: "set (pool_put k v p) \<subseteq> insert (k, v) (set p)"
  by (induction p) (auto split: if_splits)

lemma deserialize_node_counter:
  "deserialize_node e i = Inr n \<Longrightarrow> incomingFlowCompletedNumber n = 0"
  by (auto simp: deserialize_node_def createNode_counter split: option.splits)

lemma deserialize_nodes_counters:
  assumes "deserialize_nodes es i = Inr i'"
    and "\<forall>kv \<in> set (nodePool i). incomingFlowCompletedNumber (snd kv) = 0"
  shows "\<forall>kv \<in> set (nodePool i'). incomingFlowCompletedNumber (snd kv) = 0"
  using assms
proof (induction es arbitrary: i)
  case Nil
  then show ?case by simp
next
  case (Cons e es)
  from Cons.prems(1) obtain n where n: "deserialize_node e i = Inr n"
    and r: "deserialize_nodes es (i\<lparr>nodePool := pool_put (task_id (task n)) n (nodePool i)\<rparr>) = Inr i'"
    by (auto split: sum.splits)
  have "\<forall>kv \<in> set (pool_put (task_id (task n)) n (nodePool i)).
          incomingFlowCompletedNumber (snd kv) = 0"
    using set_pool_put[of "task_id (task n)" n "nodePool i"] Cons.prems(2)
      deserialize_node_counter[OF n] by auto
  with Cons.IH[OF r] show ?case by simp
qed

lemma deserialize_fields:
  assumes "deserialize_nodes es i = Inr i'"
  shows "status i' = status i \<and> variables i' = variables i \<and> error i' = error i
         \<and> id_inst i' = id_inst i \<and> def i' = def i"
  using assms
  by (induction es arbitrary: i) (auto split: sum.splits)

lemma deserialize_counters_zero:
  assumes "deserialize d e = Inr i"
  shows "(\<forall>kv \<in> set (nodePool i). incomingFlowCompletedNumber (snd kv) = 0)
         \<and> status i = e_status e \<and> variables i = e_variables e"
proof -
  let ?i0 = "(ProcessInstance d)\<lparr>id_inst := e_id e, status := e_status e,
           variables := e_variables e, error := e_error e\<rparr>"
  from assms have r: "deserialize_nodes (e_nodePool e) ?i0 = Inr i"
    by (simp add: deserialize_def)
  have "\<forall>kv \<in> set (nodePool ?i0). incomingFlowCompletedNumber (snd kv) = 0"
    by (simp add: ProcessInstance_def)
  from deserialize_nodes_counters[OF r this] deserialize_fields[OF r]
  show ?thesis by simp
qed

text \<open>
  C1. Deserializing the serialized form of an instance should give back the same node
  pool with the same counters, the same variables and the same status. For the linear
  process waiting in its service task the counter of the waiting node is 1, and after
  the round trip it is 0; for the decision process the end node has seen one of its two
  incoming flows, and after the round trip it has seen none. \<open>Node.deserialize\<close> builds
  a fresh node and never reads \<open>entity.incomingFlowCompletedNumber\<close>. Membership,
  status and variables survive.
\<close>

theorem deserialize_resets_counter:
  "map (\<lambda>kv. (fst kv, incomingFlowCompletedNumber (snd kv))) (nodePool linear_waiting) = [(1, 1)]
   \<and> (case deserialize linear_def (serialize linear_waiting) of
        Inl x \<Rightarrow> False
      | Inr i \<Rightarrow>
          map (\<lambda>kv. (fst kv, incomingFlowCompletedNumber (snd kv))) (nodePool i) = [(1, 0)]
          \<and> status i = status linear_waiting \<and> variables i = variables linear_waiting)
   \<and> map (\<lambda>kv. (fst kv, incomingFlowCompletedNumber (snd kv))) (nodePool decision_run) = [(4, 1)]
   \<and> (case deserialize decision_def (serialize decision_run) of
        Inl x \<Rightarrow> False
      | Inr i \<Rightarrow>
          map (\<lambda>kv. (fst kv, incomingFlowCompletedNumber (snd kv))) (nodePool i) = [(4, 0)]
          \<and> status i = status decision_run \<and> variables i = variables decision_run)"
  by (simp add: decision_run_def deserialize_def deserialize_node_def ProcessInstance_def run_defs)

section \<open>Order of the emitted events\<close>

lemma bpa_Nil: "before_precedes_after []"
  by (simp add: before_precedes_after_def)

lemma bpa_append:
  assumes "before_precedes_after xs" and "before_precedes_after ys"
  shows "before_precedes_after (xs @ ys)"
  unfolding before_precedes_after_def
proof (intro allI impI)
  fix j t
  assume j: "j < length (xs @ ys)" and a: "(xs @ ys) ! j = After t"
  show "\<exists>i<j. (xs @ ys) ! i = Before t"
  proof (cases "j < length xs")
    case True
    with a have "xs ! j = After t" by (simp add: nth_append)
    with assms(1) True obtain i where "i < j" "xs ! i = Before t"
      unfolding before_precedes_after_def by blast
    with True show ?thesis by (auto simp: nth_append intro!: exI[of _ i])
  next
    case False
    with a j have "ys ! (j - length xs) = After t" "j - length xs < length ys"
      by (auto simp: nth_append)
    with assms(2) obtain i where i: "i < j - length xs" "ys ! i = Before t"
      unfolding before_precedes_after_def by blast
    then show ?thesis using False
      by (auto simp: nth_append intro!: exI[of _ "length xs + i"])
  qed
qed

lemma bpa_single: "before_precedes_after [Before t]" "before_precedes_after [End]"
  by (simp_all add: before_precedes_after_def)

lemma bpa_Before_After:
  assumes "before_precedes_after evs"
  shows "before_precedes_after (Before t # After t # evs)"
proof -
  have "before_precedes_after [Before t, After t]"
    by (auto simp: before_precedes_after_def nth_Cons split: nat.splits)
  from bpa_append[OF this assms] show ?thesis by simp
qed

lemma emitted_markPending [simp]: "emitted (markPending n w) = emitted w"
  by (simp add: markPending_def split: option.splits)

lemma emitted_save [simp]: "emitted (save c w) = emitted w"
  by (simp add: save_def)

lemma emitted_changeStatus [simp]: "emitted (changeStatus st err c w) = emitted w"
  by (simp add: changeStatus_def)


lemma emitted_chunks:
  "(\<exists>evs. emitted (world_of (execute k n w)) = emitted w @ evs \<and> before_precedes_after evs
       \<and> (k \<noteq> 0 \<longrightarrow> (\<exists>rest. evs = Before (task_id (task n)) # rest)))"
  "(\<exists>evs. emitted (world_of (complete k n err vars w)) =
        emitted w @ (if truthy err then [] else After (task_id (task n)) # evs)
       \<and> before_precedes_after evs)"
  "(\<exists>evs. emitted (world_of (followFlows k n fs w)) = emitted w @ evs \<and> before_precedes_after evs)"
proof (induction k n w and k n err vars w and k n fs w rule: execute_complete_followFlows.induct)
  case (1 n w)
  show ?case by (simp add: bpa_Nil)
next
  case (2 k n w)
  let ?w1 = "emit (Before (task_id (task n))) w"
  show ?case
  proof (cases "kind n = ServiceTask")
    case True
    then show ?thesis
      by (simp add: executeInternal_service_def emit_def bpa_single)
  next
    case False
    then have eq: "execute (Suc k) n w = complete k n JUndefined JUndefined ?w1"
      by (cases "kind n") (simp_all add: Let_def)
    from False 2 have "\<exists>evs. emitted (world_of (complete k n JUndefined JUndefined ?w1)) =
        emitted ?w1 @ (if truthy JUndefined then [] else After (task_id (task n)) # evs)
       \<and> before_precedes_after evs"
      by (cases "kind n") simp_all
    then obtain evs where
      e: "emitted (world_of (complete k n JUndefined JUndefined ?w1)) =
         emitted ?w1 @ After (task_id (task n)) # evs" and b: "before_precedes_after evs"
      by auto
    from e have "emitted (world_of (execute (Suc k) n w)) =
        emitted w @ Before (task_id (task n)) # After (task_id (task n)) # evs"
      unfolding eq by (simp add: emit_def)
    with bpa_Before_After[OF b] show ?thesis by blast
  qed
next
  case (3 k n err vars w)
  show ?case
  proof (cases "truthy err")
    case True
    then show ?thesis using bpa_Nil by auto
  next
    case False
    let ?w1 = "if truthy vars then w\<lparr>variables := vars\<rparr> else w"
    let ?w2 = "emit (After (task_id (task n))) ?w1"
    let ?w3 = "?w2\<lparr>nodePool := pool_delete (task_id (task n)) (nodePool ?w2)\<rparr>"
    from 3[OF False refl refl refl] obtain evs where
      e: "emitted (world_of (followFlows k n (outgoingFlows (task n)) ?w3)) = emitted ?w3 @ evs"
      and b: "before_precedes_after evs" by blast
    have w3: "emitted ?w3 = emitted w @ [After (task_id (task n))]"
      by (simp add: emit_def)
    have "emitted (world_of (complete k n err vars w)) =
            emitted (world_of (followFlows k n (outgoingFlows (task n)) ?w3))"
      using False by (auto simp: Let_def split: sum.splits)
    with e w3 b False show ?thesis by auto
  qed
next
  case (4 k n w)
  show ?case by (simp add: bpa_Nil)
next
  case (5 k n f fs w)
  show ?case
  proof (cases "canFollowOutgoingFlow n f w")
    case False
    with 5(1) show ?thesis by simp
  next
    case follow: True
    show ?thesis
    proof (cases "lookupTask (def w) (to_flow f)")
      case None
      with follow show ?thesis by (simp add: bpa_Nil)
    next
      case (Some t)
      let ?n0 = "case pool_get (nodePool w) (task_id t) of None \<Rightarrow> createNode w t | Some nd \<Rightarrow> nd"
      let ?n1 = "?n0\<lparr>incomingFlowCompletedNumber := incomingFlowCompletedNumber ?n0 + 1\<rparr>"
      let ?w1 = "w\<lparr>nodePool := pool_put (task_id t) ?n1 (nodePool w)\<rparr>"
      have nn: "\<not> \<not> canFollowOutgoingFlow n f w" using follow by simp
      show ?thesis
      proof (cases "canExecuteNode ?n1")
        case exec: True
        from 5(2)[OF nn Some refl refl refl exec] obtain evs1 where
          e1: "emitted (world_of (execute k ?n1 ?w1)) = emitted ?w1 @ evs1"
          and b1: "before_precedes_after evs1" by blast
        show ?thesis
        proof (cases "execute k ?n1 ?w1")
          case (Inl x)
          then have "followFlows k n (f # fs) w = Inl x"
            using follow Some exec by (simp add: Let_def)
          with e1 b1 Inl show ?thesis by auto
        next
          case (Inr w2)
          from 5(3)[OF nn Some refl refl refl exec Inr] obtain evs2 where
            e2: "emitted (world_of (followFlows k n fs w2)) = emitted w2 @ evs2"
            and b2: "before_precedes_after evs2" by blast
          have "followFlows k n (f # fs) w = followFlows k n fs w2"
            using follow Some exec Inr by (simp add: Let_def)
          with e1 e2 Inr have "emitted (world_of (followFlows k n (f # fs) w)) = emitted w @ evs1 @ evs2"
            by simp
          with bpa_append[OF b1 b2] show ?thesis by blast
        qed
      next
        case noexec: False
        let ?w2 = "if status ?w1 = WAITING then save NoCont ?w1 else ?w1"
        from 5(4)[OF nn Some refl refl refl noexec] obtain evs where
          e: "emitted (world_of (followFlows k n fs ?w2)) = emitted ?w2 @ evs"
          and b: "before_precedes_after evs" by blast
        have "followFlows k n (f # fs) w = followFlows k n fs ?w2"
          using follow Some noexec by (simp add: Let_def)
        moreover have "emitted ?w2 = emitted w" by simp
        ultimately show ?thesis using e b by auto
      qed
    qed
  qed
qed


lemma turn_chunk:
  "\<exists>evs. emitted (world_of (turn k w)) = emitted w @ evs \<and> before_precedes_after evs"
proof (cases "pending w")
  case Nil
  then show ?thesis by (simp add: turn_def bpa_Nil)
next
  case (Cons op ops)
  let ?u = "settle_store (op_doc op) (w\<lparr>pending := ops\<rparr>)"
  have u: "emitted ?u = emitted w"
    by (simp add: settle_store_def split: option.splits)
  have t: "turn k w = run_cont k (op_cont op) ?u"
    using Cons by (simp add: turn_def)
  show ?thesis
  proof (cases "op_cont op")
    case NoCont
    with t u show ?thesis by (simp add: bpa_Nil)
  next
    case EmitEnd
    with t u show ?thesis by (simp add: emit_def bpa_single)
  next
    case StartNode
    show ?thesis
    proof (cases "lookupTask (def ?u) 0")
      case None
      with t u StartNode show ?thesis by (simp add: bpa_Nil)
    next
      case (Some t0)
      with t StartNode have "turn k w = execute k (Node t0) ?u" by simp
      with emitted_chunks(1)[of k "Node t0" ?u] u show ?thesis by auto
    qed
  qed
qed

lemma turns_chunk:
  "\<exists>evs. emitted (world_of (turns m k w)) = emitted w @ evs \<and> before_precedes_after evs"
proof (induction m arbitrary: w)
  case 0
  show ?case by (simp add: bpa_Nil)
next
  case (Suc m)
  from turn_chunk[of k w] obtain evs1 where
    e1: "emitted (world_of (turn k w)) = emitted w @ evs1" and b1: "before_precedes_after evs1"
    by blast
  show ?case
  proof (cases "turn k w")
    case (Inl x)
    with e1 b1 show ?thesis by (cases x) auto
  next
    case (Inr w')
    from Suc[of w'] obtain evs2 where
      e2: "emitted (world_of (turns m k w')) = emitted w' @ evs2" and b2: "before_precedes_after evs2"
      by blast
    from Inr e1 e2 have "emitted (world_of (turns (Suc m) k w)) = emitted w @ evs1 @ evs2" by simp
    with bpa_append[OF b1 b2] show ?thesis by blast
  qed
qed

lemma bpa_resume:
  assumes "before_precedes_after xs" and "Before t \<in> set xs"
  shows "before_precedes_after (xs @ [After t])"
  unfolding before_precedes_after_def
proof (intro allI impI)
  fix j u
  assume j: "j < length (xs @ [After t])" and a: "(xs @ [After t]) ! j = After u"
  show "\<exists>i<j. (xs @ [After t]) ! i = Before u"
  proof (cases "j < length xs")
    case True
    with a have "xs ! j = After u" by (simp add: nth_append)
    with assms(1) True obtain i where "i < j" "xs ! i = Before u"
      unfolding before_precedes_after_def by blast
    with True show ?thesis by (auto simp: nth_append intro!: exI[of _ i])
  next
    case False
    with j have jl: "j = length xs" by simp
    with a have "u = t" by simp
    from assms(2) obtain i where "i < length xs" "xs ! i = Before t"
      by (auto simp: in_set_conv_nth)
    with jl \<open>u = t\<close> show ?thesis by (auto simp: nth_append intro!: exI[of _ i])
  qed
qed

lemma complete_keeps_order:
  assumes "before_precedes_after (emitted w)" and "Before (task_id (task n)) \<in> set (emitted w)"
  shows "before_precedes_after (emitted (world_of (complete k n err vars w)))"
proof -
  from emitted_chunks(2)[of k n err vars w] obtain evs where
    e: "emitted (world_of (complete k n err vars w)) =
          emitted w @ (if truthy err then [] else After (task_id (task n)) # evs)"
    and b: "before_precedes_after evs" by blast
  show ?thesis
  proof (cases "truthy err")
    case True
    with e assms(1) show ?thesis by simp
  next
    case False
    from bpa_append[OF bpa_resume[OF assms] b]
    have "before_precedes_after (emitted w @ After (task_id (task n)) # evs)" by simp
    with e False show ?thesis by simp
  qed
qed

lemma turn_keeps_order:
  assumes "before_precedes_after (emitted w)"
  shows "before_precedes_after (emitted (world_of (turn k w)))"
proof -
  from turn_chunk[of k w] obtain evs where
    "emitted (world_of (turn k w)) = emitted w @ evs" "before_precedes_after evs" by blast
  with bpa_append[OF assms] show ?thesis by simp
qed

lemma instance_run_order:
  "instance_run d i w \<Longrightarrow> before_precedes_after (emitted w)"
proof (induction rule: instance_run.induct)
  case (started vars)
  show ?case by (simp add: start_internal_def createProcessInstance_def bpa_Nil)
next
  case (turned w k)
  from turn_keeps_order[OF turned.IH] show ?case .
next
  case (completed w taskId n k err vars)
  from complete_keeps_order[OF completed.IH completed.hyps(3)] show ?case .
qed

lemma instance_run_turns:
  "instance_run d i w \<Longrightarrow> instance_run d i (world_of (turns m k w))"
proof (induction m arbitrary: w)
  case 0
  then show ?case by simp
next
  case (Suc m)
  show ?case
  proof (cases "turn k w")
    case (Inl x)
    then have "world_of (turns (Suc m) k w) = world_of (turn k w)" by simp
    with instance_run.turned[OF Suc.prems, of k] show ?thesis by simp
  next
    case (Inr w')
    from instance_run.turned[OF Suc.prems, of k] Inr have "instance_run d i w'" by simp
    from Suc.IH[OF this] Inr show ?thesis by simp
  qed
qed

lemma join_misuse_emitted:
  "emitted (world_of (completeTask 5 2 JUndefined join_waiting))
     = [Before 0, After 0, Before 1, After 2, Before 3, After 3]"
  by (simp add: completeTask_def rev_defs run_defs)

lemma not_bpa_example:
  "\<not> before_precedes_after [Before 0, After 0, Before 1, After 2, Before 3, After 3]"
proof
  assume "before_precedes_after [Before 0, After 0, Before 1, After 2, Before 3, After 3]"
  then have "\<exists>i<3. [Before 0, After 0, Before 1, After 2, Before 3, After 3] ! i = Before 2"
    unfolding before_precedes_after_def by (elim allE[of _ 3] allE[of _ 2]) simp
  then obtain i where "i < 3" and
    b: "[Before 0, After 0, Before (1::nat), After 2, Before 3, After 3] ! i = Before 2"
    by blast
  then have "i = 0 \<or> i = 1 \<or> i = 2" by arith
  with b show False by auto
qed

text \<open>
  C7, as stated, fails: \<open>completeTask\<close> completes whatever node the pool holds for the
  task id. In the join process the join node is pooled after one of its two arrivals
  and has not been executed; completing it emits \<open>after\<close> for the join although no
  \<open>before\<close> for it was ever emitted.
\<close>

theorem after_without_before_counterexample:
  "map fst (nodePool join_waiting) = [1, 2]
   \<and> map (\<lambda>kv. incomingFlowCompletedNumber (snd kv)) (nodePool join_waiting) = [1, 1]
   \<and> emitted join_waiting = [Before 0, After 0, Before 1]
   \<and> emitted (world_of (completeTask 5 2 JUndefined join_waiting))
       = [Before 0, After 0, Before 1, After 2, Before 3, After 3]
   \<and> \<not> before_precedes_after (emitted (world_of (completeTask 5 2 JUndefined join_waiting)))"
proof -
  have a: "map fst (nodePool join_waiting) = [1, 2]"
    "map (\<lambda>kv. incomingFlowCompletedNumber (snd kv)) (nodePool join_waiting) = [1, 1]"
    by (simp_all add: rev_defs run_defs)
  have n: "\<not> before_precedes_after (emitted (world_of (completeTask 5 2 JUndefined join_waiting)))"
    unfolding join_misuse_emitted by (rule not_bpa_example)
  show ?thesis
    by (intro conjI) (fact a join_waiting_fields(2) join_misuse_emitted n)+
qed

text \<open>
  C7, amended. An executed node emits \<open>before\<close> for its task first, so every \<open>after\<close>
  that the execution emits, for this task or for a task executed further down, comes
  strictly later than the \<open>before\<close> of the same task. A completion without error emits
  \<open>after\<close> for its task first, strictly before the \<open>before\<close> of every successor it
  executes. A completion from outside of a node whose \<open>before\<close> has been emitted keeps
  the order. Hence in one instance execution in which only executed nodes are completed
  from outside, every \<open>after\<close> is preceded by the \<open>before\<close> of its task. All of this
  holds as well when the propagation is cut short by an exception.
\<close>

theorem before_after_order:
  "(\<exists>rest. emitted (world_of (execute (Suc k) n w)) = emitted w @ Before (task_id (task n)) # rest
        \<and> before_precedes_after (Before (task_id (task n)) # rest))
   \<and> (\<not> truthy err \<longrightarrow>
        (\<exists>rest. emitted (world_of (complete k' n' err vars w')) =
                   emitted w' @ After (task_id (task n')) # rest
           \<and> before_precedes_after rest))
   \<and> (before_precedes_after (emitted u) \<longrightarrow> Before (task_id (task m)) \<in> set (emitted u) \<longrightarrow>
        before_precedes_after (emitted (world_of (complete k'' m err' vars' u))))
   \<and> (instance_run d i v \<longrightarrow> before_precedes_after (emitted v))"
proof (intro conjI impI)
  from emitted_chunks(1)[of "Suc k" n w]
  show "\<exists>rest. emitted (world_of (execute (Suc k) n w)) = emitted w @ Before (task_id (task n)) # rest
        \<and> before_precedes_after (Before (task_id (task n)) # rest)"
    by auto
next
  assume "\<not> truthy err"
  with emitted_chunks(2)[of k' n' err vars w']
  show "\<exists>rest. emitted (world_of (complete k' n' err vars w')) =
                   emitted w' @ After (task_id (task n')) # rest
           \<and> before_precedes_after rest"
    by auto
next
  assume "before_precedes_after (emitted u)" and "Before (task_id (task m)) \<in> set (emitted u)"
  then show "before_precedes_after (emitted (world_of (complete k'' m err' vars' u)))"
    by (rule complete_keeps_order)
next
  assume "instance_run d i v"
  then show "before_precedes_after (emitted v)" by (rule instance_run_order)
qed

theorem before_after_order_witness:
  "\<not> truthy JNull
   \<and> emitted (world_of (execute (Suc 2) (Node (tasks linear_def ! 0)) (createProcessInstance linear_def 1)))
       = [Before 0, After 0, Before 1]
   \<and> before_precedes_after [Before 0, After 0, Before 1]
   \<and> emitted (world_of (complete 5 svc_node JNull JUndefined linear_waiting))
       = emitted linear_waiting @ [After 1, Before 2, After 2]
   \<and> before_precedes_after [Before 2, After 2]
   \<and> instance_run linear_def 1 linear_waiting
   \<and> Before (task_id (task svc_node)) \<in> set (emitted linear_waiting)
   \<and> before_precedes_after (emitted (world_of (complete 5 svc_node JNull JUndefined linear_waiting)))
   \<and> instance_run linear_def 1 linear_done
   \<and> emitted linear_done = [Before 0, After 0, Before 1, After 1, Before 2, After 2, End]
   \<and> before_precedes_after (emitted linear_done)"
proof -
  let ?n0 = "Node (tasks linear_def ! 0)" and ?w0 = "createProcessInstance linear_def 1"
  have nt: "\<not> truthy JNull" by simp
  have e1: "emitted (world_of (execute (Suc 2) ?n0 ?w0)) = [Before 0, After 0, Before 1]"
    by (simp add: run_defs)
  have e2: "emitted (world_of (complete 5 svc_node JNull JUndefined linear_waiting))
       = emitted linear_waiting @ [After 1, Before 2, After 2]"
    by (simp add: run_defs)
  have i0: "emitted ?w0 = []" "task_id (task ?n0) = 0" "task_id (task svc_node) = 1"
    by (simp_all add: run_defs)
  have bf: "Before (task_id (task svc_node)) \<in> set (emitted linear_waiting)"
    unfolding i0 linear_waiting_fields by simp
  have r0: "instance_run linear_def 1 (start_internal JUndefined ?w0)"
    by (rule instance_run.started)
  have r1: "instance_run linear_def 1 linear_waiting"
    unfolding linear_waiting_def by (rule instance_run_turns[OF r0])
  have r2: "instance_run linear_def 1 linear_once"
    unfolding linear_once_def by (rule instance_run.completed[OF r1 svc_node_in_pool bf])
  have r3: "instance_run linear_def 1 linear_done"
    unfolding linear_done_def by (rule instance_run_turns[OF r2])
  note th = before_after_order[where k = 2 and n = ?n0 and w = ?w0 and err = JNull and k' = 5
      and n' = svc_node and vars = JUndefined and w' = linear_waiting and u = linear_waiting
      and m = svc_node and k'' = 5 and err' = JNull and vars' = JUndefined
      and d = linear_def and i = 1 and v = linear_waiting]
  note th' = before_after_order[where k = 2 and n = ?n0 and w = ?w0 and err = JNull and k' = 5
      and n' = svc_node and vars = JUndefined and w' = linear_waiting and u = linear_waiting
      and m = svc_node and k'' = 5 and err' = JNull and vars' = JUndefined
      and d = linear_def and i = 1 and v = linear_done]
  from th[THEN conjunct1] obtain rest where
    r: "emitted (world_of (execute (Suc 2) ?n0 ?w0)) = emitted ?w0 @ Before (task_id (task ?n0)) # rest"
    and b: "before_precedes_after (Before (task_id (task ?n0)) # rest)"
    by (elim exE conjE)
  from r have "[Before 0, After 0, Before 1] = [] @ Before 0 # rest"
    by (simp only: e1 i0)
  then have "Before 0 # rest = [Before 0, After 0, Before 1]" by simp
  with b have b1: "before_precedes_after [Before 0, After 0, Before 1]"
    by (simp only: i0)
  from th[THEN conjunct2, THEN conjunct1, rule_format, OF nt] obtain rest2 where
    r2': "emitted (world_of (complete 5 svc_node JNull JUndefined linear_waiting))
       = emitted linear_waiting @ After (task_id (task svc_node)) # rest2"
    and b': "before_precedes_after rest2"
    by (elim exE conjE)
  from r2' have "emitted linear_waiting @ [After 1, Before 2, After 2]
      = emitted linear_waiting @ After 1 # rest2"
    by (simp only: e2 i0)
  then have "rest2 = [Before 2, After 2]" by simp
  with b' have b2: "before_precedes_after [Before 2, After 2]" by (simp only:)
  have b3: "before_precedes_after (emitted linear_waiting)"
    by (rule th[THEN conjunct2, THEN conjunct2, THEN conjunct2, rule_format, OF r1])
  have b4: "before_precedes_after (emitted (world_of (complete 5 svc_node JNull JUndefined linear_waiting)))"
    by (rule th[THEN conjunct2, THEN conjunct2, THEN conjunct1, rule_format, OF b3 bf])
  have b5: "before_precedes_after (emitted linear_done)"
    by (rule th'[THEN conjunct2, THEN conjunct2, THEN conjunct2, rule_format, OF r3])
  show ?thesis
    by (intro conjI) (fact nt e1 e2 b1 b2 r1 bf b4 r3 linear_done_fields(2) b5)+
qed

section \<open>Following the outgoing flows\<close>

lemma followFlows_single:
  "followFlows k n (f # fs) w =
     (case followFlows k n [f] w of Inl x \<Rightarrow> Inl x | Inr w' \<Rightarrow> followFlows k n fs w')"
  by (simp add: Let_def split: sum.splits option.splits)

text \<open>
  C2. A completion without error emits \<open>after\<close>, removes the node from the pool and then
  goes through the outgoing flows of its task in their order, one after the other. A
  flow that \<open>canFollowOutgoingFlow\<close> rejects leaves the instance as it is. For any other
  flow the successor is the node the pool holds for the target task, or a new node when
  the pool holds none; its counter is incremented by one and it is stored in the pool;
  it is executed at once exactly when \<open>canExecuteNode\<close> then holds of it, and otherwise
  the instance is saved if it is WAITING.
\<close>

theorem complete_follows_outgoing_flows:
  "(\<not> truthy err \<longrightarrow>
      complete k n err vars w =
        (case followFlows k n (outgoingFlows (task n))
                ((emit (After (task_id (task n))) (if truthy vars then w\<lparr>variables := vars\<rparr> else w))
                   \<lparr>nodePool := pool_delete (task_id (task n)) (nodePool w)\<rparr>) of
           Inl x \<Rightarrow> Inl x
         | Inr w4 \<Rightarrow>
             Inr (if type (task n) = ''end-task''
                  then changeStatus COMPLETED JUndefined EmitEnd w4 else w4)))
   \<and> followFlows k n (f # fs) w =
       (case followFlows k n [f] w of Inl x \<Rightarrow> Inl x | Inr w' \<Rightarrow> followFlows k n fs w')
   \<and> (\<not> canFollowOutgoingFlow n f w \<longrightarrow> followFlows k n [f] w = Inr w)
   \<and> (canFollowOutgoingFlow n f w \<longrightarrow>
        (\<forall>t. lookupTask (def w) (to_flow f) = Some t \<longrightarrow>
          (\<exists>succ w1.
              succ = (case pool_get (nodePool w) (task_id t) of
                        Some nd \<Rightarrow> nd\<lparr>incomingFlowCompletedNumber := incomingFlowCompletedNumber nd + 1\<rparr>
                      | None \<Rightarrow> (createNode w t)\<lparr>incomingFlowCompletedNumber := 1\<rparr>)
            \<and> w1 = w\<lparr>nodePool := pool_put (task_id t) succ (nodePool w)\<rparr>
            \<and> pool_get (nodePool w1) (task_id t) = Some succ
            \<and> followFlows k n [f] w =
                (if canExecuteNode succ then execute k succ w1
                 else Inr (if status w = WAITING then save NoCont w1 else w1)))))"
proof (intro conjI impI allI)
  assume "\<not> truthy err"
  then show "complete k n err vars w =
        (case followFlows k n (outgoingFlows (task n))
                ((emit (After (task_id (task n))) (if truthy vars then w\<lparr>variables := vars\<rparr> else w))
                   \<lparr>nodePool := pool_delete (task_id (task n)) (nodePool w)\<rparr>) of
           Inl x \<Rightarrow> Inl x
         | Inr w4 \<Rightarrow>
             Inr (if type (task n) = ''end-task''
                  then changeStatus COMPLETED JUndefined EmitEnd w4 else w4))"
    by (simp add: Let_def emit_def)
next
  show "followFlows k n (f # fs) w =
       (case followFlows k n [f] w of Inl x \<Rightarrow> Inl x | Inr w' \<Rightarrow> followFlows k n fs w')"
    by (rule followFlows_single)
next
  assume "\<not> canFollowOutgoingFlow n f w"
  then show "followFlows k n [f] w = Inr w" by simp
next
  fix t
  assume cf: "canFollowOutgoingFlow n f w" and lk: "lookupTask (def w) (to_flow f) = Some t"
  let ?succ = "case pool_get (nodePool w) (task_id t) of
                        Some nd \<Rightarrow> nd\<lparr>incomingFlowCompletedNumber := incomingFlowCompletedNumber nd + 1\<rparr>
                      | None \<Rightarrow> (createNode w t)\<lparr>incomingFlowCompletedNumber := 1\<rparr>"
  let ?n0 = "case pool_get (nodePool w) (task_id t) of Some nd \<Rightarrow> nd | None \<Rightarrow> createNode w t"
  let ?w1 = "w\<lparr>nodePool := pool_put (task_id t) ?succ (nodePool w)\<rparr>"
  have succ: "?n0\<lparr>incomingFlowCompletedNumber := incomingFlowCompletedNumber ?n0 + 1\<rparr> = ?succ"
    by (simp add: createNode_counter split: option.splits)
  have "followFlows k n [f] w =
          (if canExecuteNode ?succ then execute k ?succ ?w1
           else Inr (if status w = WAITING then save NoCont ?w1 else ?w1))"
    using cf lk unfolding succ[symmetric]
    by (simp add: Let_def split: sum.splits)
  moreover have "pool_get (nodePool ?w1) (task_id t) = Some ?succ"
    by (simp add: pool_get_put)
  ultimately show "\<exists>succ w1.
              succ = (case pool_get (nodePool w) (task_id t) of
                        Some nd \<Rightarrow> nd\<lparr>incomingFlowCompletedNumber := incomingFlowCompletedNumber nd + 1\<rparr>
                      | None \<Rightarrow> (createNode w t)\<lparr>incomingFlowCompletedNumber := 1\<rparr>)
            \<and> w1 = w\<lparr>nodePool := pool_put (task_id t) succ (nodePool w)\<rparr>
            \<and> pool_get (nodePool w1) (task_id t) = Some succ
            \<and> followFlows k n [f] w =
                (if canExecuteNode succ then execute k succ w1
                 else Inr (if status w = WAITING then save NoCont w1 else w1))"
    by blast
qed

theorem complete_follows_outgoing_flows_witness:
  "\<not> canFollowOutgoingFlow decide_node
        ((unguarded 1 3)\<lparr>condition := (\<lambda>v. \<not> x_positive v)\<rparr>) decision_start
   \<and> followFlows 3 decide_node [(unguarded 1 3)\<lparr>condition := (\<lambda>v. \<not> x_positive v)\<rparr>]
        decision_start = Inr decision_start
   \<and> canFollowOutgoingFlow decide_node ((unguarded 1 2)\<lparr>condition := x_positive\<rparr>) decision_start
   \<and> lookupTask (def decision_start) 2 = Some (tasks decision_def ! 2)
   \<and> pool_get (nodePool decision_start) 2 = None
   \<and> emitted (world_of (followFlows 3 decide_node (outgoingFlows (task decide_node)) decision_start))
       = [Before 2, After 2]
   \<and> map (\<lambda>kv. (fst kv, incomingFlowCompletedNumber (snd kv)))
        (nodePool (world_of (followFlows 3 decide_node (outgoingFlows (task decide_node)) decision_start)))
       = [(4, 1)]"
proof -
  let ?fB = "(unguarded 1 3)\<lparr>condition := (\<lambda>v. \<not> x_positive v)\<rparr>"
  have h: "\<not> canFollowOutgoingFlow decide_node ?fB decision_start"
    by (simp add: run_defs)
  from complete_follows_outgoing_flows[of JUndefined 3 decide_node JUndefined decision_start ?fB "[]"] h
  have skip: "followFlows 3 decide_node [?fB] decision_start = Inr decision_start"
    by blast
  have rest: "canFollowOutgoingFlow decide_node ((unguarded 1 2)\<lparr>condition := x_positive\<rparr>) decision_start"
    "lookupTask (def decision_start) 2 = Some (tasks decision_def ! 2)"
    "pool_get (nodePool decision_start) 2 = None"
    "emitted (world_of (followFlows 3 decide_node (outgoingFlows (task decide_node)) decision_start))
       = [Before 2, After 2]"
    "map (\<lambda>kv. (fst kv, incomingFlowCompletedNumber (snd kv)))
        (nodePool (world_of (followFlows 3 decide_node (outgoingFlows (task decide_node)) decision_start)))
       = [(4, 1)]"
    by (simp_all add: run_defs)
  show ?thesis by (intro conjI) (fact h skip rest)+
qed

section \<open>Completion with an error\<close>

lemma turn_EmitEnd:
  assumes "pending u = \<lparr>op_doc = D, op_cont = EmitEnd\<rparr> # ops"
  shows "turn j u = Inr (emit End (settle_store D (u\<lparr>pending := ops\<rparr>)))"
  using assms by (simp add: turn_def)

lemma settle_store_persists:
  "e_persistenceId D = None \<Longrightarrow>
     last (collection (settle_store D u)) = D\<lparr>e_persistenceId := Some (nextStoreId u)\<rparr>"
  "e_persistenceId D = Some pid \<Longrightarrow> \<exists>d \<in> set (collection u). e_persistenceId d = Some pid \<Longrightarrow>
     D \<in> set (collection (settle_store D u))"
  by (auto simp: settle_store_def)

text \<open>
  C4, as stated, fails: the routine tests \<open>if (err)\<close>, so an error that is not null but
  falsy, such as the empty string, is taken for no error. The waiting service node of the
  linear process completed with \<open>''\<close> emits \<open>after\<close>, leaves the pool, and the end task
  runs; the status does not become FAILED.
\<close>

theorem complete_falsy_error_counterexample:
  "JStr [] \<noteq> JNull \<and> JStr [] \<noteq> JUndefined
   \<and> (case pool_get (nodePool linear_waiting) 1 of
        None \<Rightarrow> False
      | Some nd \<Rightarrow>
          (case complete 5 nd (JStr []) JUndefined linear_waiting of
             Inl x \<Rightarrow> False
           | Inr w' \<Rightarrow>
               status w' \<noteq> FAILED \<and> error w' \<noteq> JStr []
               \<and> emitted w' = emitted linear_waiting @ [After 1, Before 2, After 2]
               \<and> nodePool w' = []))"
  by (simp add: linear_waiting_def linear_def_def model_defs eval_nat_numeral)

text \<open>
  C4, amended. When \<open>complete\<close> is called with a truthy error, the status becomes FAILED
  and the error is the one given; one write of the instance in that state is issued,
  and when it settles the document is stored and \<open>end\<close> is emitted. Nothing else
  happens: nothing is emitted at once, and the node pool and the variables stay as they
  are.
\<close>

theorem complete_truthy_error:
  assumes "truthy err"
  shows "\<exists>w'. complete k n err vars w = Inr w'
     \<and> status w' = FAILED \<and> error w' = err
     \<and> pending w' = pending w @ [\<lparr>op_doc = serialize w', op_cont = EmitEnd\<rparr>]
     \<and> e_status (serialize w') = FAILED \<and> e_error (serialize w') = err
     \<and> (\<forall>j u ops. pending u = \<lparr>op_doc = serialize w', op_cont = EmitEnd\<rparr> # ops \<longrightarrow>
           (\<exists>u'. turn j u = Inr u' \<and> emitted u' = emitted u @ [End]
              \<and> collection u' = collection (settle_store (serialize w') u)))
     \<and> emitted w' = emitted w \<and> nodePool w' = nodePool w \<and> variables w' = variables w
     \<and> id_inst w' = id_inst w \<and> persistenceId w' = persistenceId w \<and> def w' = def w
     \<and> collection w' = collection w \<and> nextStoreId w' = nextStoreId w"
proof -
  let ?w' = "changeStatus FAILED err EmitEnd w"
  have c: "complete k n err vars w = Inr ?w'" using assms by simp
  have t: "\<forall>j u ops. pending u = \<lparr>op_doc = serialize ?w', op_cont = EmitEnd\<rparr> # ops \<longrightarrow>
           (\<exists>u'. turn j u = Inr u' \<and> emitted u' = emitted u @ [End]
              \<and> collection u' = collection (settle_store (serialize ?w') u))"
  proof (intro allI impI)
    fix j and u :: world and ops
    assume "pending u = \<lparr>op_doc = serialize ?w', op_cont = EmitEnd\<rparr> # ops"
    from turn_EmitEnd[OF this]
    show "\<exists>u'. turn j u = Inr u' \<and> emitted u' = emitted u @ [End]
              \<and> collection u' = collection (settle_store (serialize ?w') u)"
      by (simp add: emit_def settle_store_def split: option.splits)
  qed
  have f: "status ?w' = FAILED" "error ?w' = err"
    "pending ?w' = pending w @ [\<lparr>op_doc = serialize ?w', op_cont = EmitEnd\<rparr>]"
    "e_status (serialize ?w') = FAILED" "e_error (serialize ?w') = err"
    "emitted ?w' = emitted w" "nodePool ?w' = nodePool w" "variables ?w' = variables w"
    "id_inst ?w' = id_inst w" "persistenceId ?w' = persistenceId w" "def ?w' = def w"
    "collection ?w' = collection w" "nextStoreId ?w' = nextStoreId w"
    by (simp_all add: changeStatus_def save_def serialize_def serialize_node_def)
  from c t f show ?thesis by blast
qed

theorem complete_truthy_error_witness:
  "truthy (JStr ''boom'')
   \<and> status (world_of (complete 5 svc_node (JStr ''boom'') JUndefined linear_waiting)) = FAILED
   \<and> error (world_of (complete 5 svc_node (JStr ''boom'') JUndefined linear_waiting)) = JStr ''boom''
   \<and> emitted (world_of (complete 5 svc_node (JStr ''boom'') JUndefined linear_waiting))
       = [Before 0, After 0, Before 1]
   \<and> pool_get (nodePool (world_of (complete 5 svc_node (JStr ''boom'') JUndefined linear_waiting))) 1
       = Some svc_node
   \<and> emitted (world_of (turns 1 5
         (world_of (complete 5 svc_node (JStr ''boom'') JUndefined linear_waiting))))
       = [Before 0, After 0, Before 1, End]
   \<and> map e_status (collection (world_of (turns 1 5
         (world_of (complete 5 svc_node (JStr ''boom'') JUndefined linear_waiting))))) = [FAILED]"
proof -
  have t: "truthy (JStr ''boom'')" by simp
  from complete_truthy_error[OF t, of 5 svc_node JUndefined linear_waiting]
  obtain w' where w': "complete 5 svc_node (JStr ''boom'') JUndefined linear_waiting = Inr w'"
    and s: "status w' = FAILED" "error w' = JStr ''boom''"
      "emitted w' = emitted linear_waiting" "nodePool w' = nodePool linear_waiting"
    by blast
  let ?r = "world_of (complete 5 svc_node (JStr ''boom'') JUndefined linear_waiting)"
  from w' have eq: "?r = w'" by simp
  have a: "status ?r = FAILED" "error ?r = JStr ''boom''" unfolding eq by (rule s)+
  have b: "emitted ?r = [Before 0, After 0, Before 1]"
    unfolding eq s(3) by (rule linear_waiting_fields)
  have c: "pool_get (nodePool ?r) 1 = Some svc_node"
    unfolding eq s(4) by (rule svc_node_in_pool)
  have r: "emitted (world_of (turns 1 5 ?r)) = [Before 0, After 0, Before 1, End]"
    "map e_status (collection (world_of (turns 1 5 ?r))) = [FAILED]"
    by (simp_all add: run_defs)
  show ?thesis by (intro conjI) (fact t a b c r)+
qed

section \<open>Completion of the end task\<close>

text \<open>
  C5. When the \<open>complete\<close> routine of a node whose task has type \<open>end-task\<close> returns from
  a call without error, the status is COMPLETED, a write of the instance in that state
  has been issued, and when it settles the document is stored and \<open>end\<close> is emitted.
  For an end task without outgoing flows the routine always returns.
\<close>

theorem end_task_completes:
  assumes "type (task n) = ''end-task''" and "\<not> truthy err"
  shows "(\<forall>w'. complete k n err vars w = Inr w' \<longrightarrow>
            status w' = COMPLETED \<and> error w' = JUndefined
            \<and> e_status (serialize w') = COMPLETED
            \<and> (\<exists>ps. pending w' = ps @ [\<lparr>op_doc = serialize w', op_cont = EmitEnd\<rparr>])
            \<and> (\<forall>j u ops. pending u = \<lparr>op_doc = serialize w', op_cont = EmitEnd\<rparr> # ops \<longrightarrow>
                  (\<exists>u'. turn j u = Inr u' \<and> emitted u' = emitted u @ [End]
                     \<and> collection u' = collection (settle_store (serialize w') u))))
       \<and> (outgoingFlows (task n) = [] \<longrightarrow> (\<exists>w'. complete k n err vars w = Inr w'))"
proof (intro conjI allI impI)
  fix w' assume c: "complete k n err vars w = Inr w'"
  let ?w3 = "(emit (After (task_id (task n))) (if truthy vars then w\<lparr>variables := vars\<rparr> else w))
               \<lparr>nodePool := pool_delete (task_id (task n))
                  (nodePool (emit (After (task_id (task n))) (if truthy vars then w\<lparr>variables := vars\<rparr> else w)))\<rparr>"
  from c assms obtain w4 where w4: "followFlows k n (outgoingFlows (task n)) ?w3 = Inr w4"
    and w': "w' = changeStatus COMPLETED JUndefined EmitEnd w4"
    by (auto simp: Let_def split: sum.splits)
  show "status w' = COMPLETED" "error w' = JUndefined" "e_status (serialize w') = COMPLETED"
    unfolding w' by (simp_all add: changeStatus_def save_def serialize_def)
  show "\<exists>ps. pending w' = ps @ [\<lparr>op_doc = serialize w', op_cont = EmitEnd\<rparr>]"
    unfolding w' by (simp add: changeStatus_def save_def serialize_def serialize_node_def)
next
  fix w' j and u :: world and ops
  assume "complete k n err vars w = Inr w'"
    and "pending u = \<lparr>op_doc = serialize w', op_cont = EmitEnd\<rparr> # ops"
  from turn_EmitEnd[OF this(2)]
  show "\<exists>u'. turn j u = Inr u' \<and> emitted u' = emitted u @ [End]
          \<and> collection u' = collection (settle_store (serialize w') u)"
    by (simp add: emit_def settle_store_def split: option.splits)
next
  assume "outgoingFlows (task n) = []"
  with assms show "\<exists>w'. complete k n err vars w = Inr w'"
    by (simp add: Let_def)
qed

theorem end_task_completes_witness:
  "type (task end_node) = ''end-task'' \<and> \<not> truthy JUndefined
   \<and> outgoingFlows (task end_node) = []
   \<and> (\<exists>w'. complete 0 end_node JUndefined JUndefined linear_waiting = Inr w'
          \<and> status w' = COMPLETED)
   \<and> status linear_done = COMPLETED
   \<and> emitted linear_done = [Before 0, After 0, Before 1, After 1, Before 2, After 2, End]
   \<and> map e_status (collection linear_done) = [COMPLETED]"
proof -
  have h: "type (task end_node) = ''end-task''" "\<not> truthy JUndefined"
    "outgoingFlows (task end_node) = []"
    by (simp_all add: run_defs)
  from end_task_completes[OF h(1,2), of 0 JUndefined linear_waiting] h(3)
  have "\<exists>w'. complete 0 end_node JUndefined JUndefined linear_waiting = Inr w'
          \<and> status w' = COMPLETED"
    by blast
  note ex = this
  show ?thesis by (intro conjI) (fact h ex linear_done_fields)+
qed

text \<open>
  C6, as stated, fails: when start forks to a service task and to the end task, the end
  task completes while the service node still waits in the pool. The instance is
  COMPLETED and its node pool holds the service node.
\<close>

theorem completed_with_live_node_counterexample:
  "status parallel_run = COMPLETED \<and> map fst (nodePool parallel_run) = [1]
   \<and> nodePool parallel_run \<noteq> []"
  by (simp add: parallel_run_def parallel_def_def model_defs eval_nat_numeral)

text \<open>
  C6, amended. When an end task without outgoing flows completes without error, the
  status becomes COMPLETED and the node pool is the pool before without the entry of
  that task; it is empty exactly when no node of another task was in the pool.
\<close>

theorem end_task_pool:
  assumes "type (task n) = ''end-task''" and "outgoingFlows (task n) = []" and "\<not> truthy err"
  shows "\<exists>w'. complete k n err vars w = Inr w' \<and> status w' = COMPLETED
           \<and> nodePool w' = pool_delete (task_id (task n)) (nodePool w)
           \<and> (nodePool w' = [] \<longleftrightarrow> (\<forall>kv \<in> set (nodePool w). fst kv = task_id (task n)))"
  using assms
  by (auto simp: Let_def changeStatus_def save_def emit_def pool_delete_def filter_empty_conv)

theorem end_task_pool_witness:
  "type (task end_node) = ''end-task'' \<and> outgoingFlows (task end_node) = []
   \<and> \<not> truthy JUndefined
   \<and> status (world_of (complete 0 end_node JUndefined JUndefined linear_waiting)) = COMPLETED
   \<and> map fst (nodePool (world_of (complete 0 end_node JUndefined JUndefined linear_waiting))) = [1]"
proof -
  have h: "type (task end_node) = ''end-task''" "outgoingFlows (task end_node) = []"
    "\<not> truthy JUndefined"
    by (simp_all add: run_defs)
  from end_task_pool[OF h, of 0 JUndefined linear_waiting]
  obtain w' where w': "complete 0 end_node JUndefined JUndefined linear_waiting = Inr w'"
    and s: "status w' = COMPLETED"
    and p: "nodePool w' = pool_delete (task_id (task end_node)) (nodePool linear_waiting)"
    by blast
  have "map fst (pool_delete (task_id (task end_node)) (nodePool linear_waiting)) = [1]"
    by (simp add: run_defs)
  note m = this
  from w' have eq: "world_of (complete 0 end_node JUndefined JUndefined linear_waiting) = w'"
    by simp
  have a: "status (world_of (complete 0 end_node JUndefined JUndefined linear_waiting)) = COMPLETED"
    unfolding eq by (rule s)
  have b: "map fst (nodePool (world_of (complete 0 end_node JUndefined JUndefined linear_waiting))) = [1]"
    unfolding eq p by (rule m)
  show ?thesis by (intro conjI) (fact h a b)+
qed

section \<open>Completing a node twice\<close>

text \<open>
  \<open>Node.prototype.complete\<close> itself keeps no record of having run: called again on the
  same node it runs again.
\<close>

lemma complete_again_runs_again:
  "emitted linear_once = [Before 0, After 0, Before 1, After 1, Before 2, After 2]"
  "emitted (world_of (complete 5 svc_node JNull (JObj [(''x'', JNum 2)]) linear_once))
     = emitted linear_once @ [After 1, Before 2, After 2]"
  by (simp_all add: linear_once_def run_defs)




end
